theory Spec2Isabelle
  imports Main
begin

section \<open>Data model of \<^verbatim>\<open>src/nginx_parser.cpp\<close>\<close>

text \<open>
  The class hierarchy under \<^verbatim>\<open>token::Token\<close> is closed: \<^verbatim>\<open>Semicolon\<close>,
  \<^verbatim>\<open>OpeningBrace\<close>, \<^verbatim>\<open>ClosingBrace\<close>, \<^verbatim>\<open>String\<close> (with its \<^verbatim>\<open>content\<close>) and
  \<^verbatim>\<open>Group\<close> (with its \<^verbatim>\<open>content\<close>, a vector of tokens). Every \<^verbatim>\<open>dynamic_cast\<close> of the
  source is a test of the constructor. The tokens are never mutated after their creation,
  so a \<^verbatim>\<open>Token *\<close> is modelled by the token it points to.
\<close>

datatype token =
    Semicolon
  | OpeningBrace
  | ClosingBrace
  | String string
  | Group "token list"

text \<open>
  The source signals errors by exceptions: \<^verbatim>\<open>ParsingError\<close> carries its \<^verbatim>\<open>reason\<close>, and
  the reference cast \<^verbatim>\<open>dynamic_cast<String &>\<close> of \<^verbatim>\<open>parse_block\<close> throws
  \<^verbatim>\<open>std::bad_cast\<close> when the token is not a \<^verbatim>\<open>String\<close>.
\<close>

datatype error =
    ParsingError string
  | bad_cast

text \<open>
  The names the specification gives to two of the error kinds, with the exception of the
  source each of them stands for. The source has no exception for a closing brace without an
  opening one.
\<close>

definition UnmatchedOpeningBrace :: error where
  "UnmatchedOpeningBrace = ParsingError ''No matching closing curly brace''"

definition ExpectedDirectiveName :: error where
  "ExpectedDirectiveName = bad_cast"

text \<open>
  \<^verbatim>\<open>config::Directive\<close>: the \<^verbatim>\<open>config\<close> field is a \<^verbatim>\<open>Block *\<close>, null (\<open>None\<close>) when the
  directive has no body; \<^verbatim>\<open>Block\<close> is a vector of directives.
\<close>

datatype directive =
  Directive (name: string) (args: "string list") (config: "directive list option")

type_synonym block = "directive list"

section \<open>Tokenizer\<close>

text \<open>
  An iterator pair \<^verbatim>\<open>(input, end)\<close> over a string is modelled by the characters from
  \<^verbatim>\<open>input\<close> to \<^verbatim>\<open>end\<close>: \<^verbatim>\<open>input == end\<close> is the empty list, \<^verbatim>\<open>*input\<close> the head and
  \<^verbatim>\<open>++input\<close> the tail.
\<close>

fun skipComment :: "string \<Rightarrow> string" where
  "skipComment [] = []"
| "skipComment (c # cs) = (if c = CHR 0x0A then c # cs else skipComment cs)"

lemma length_skipComment: "length (skipComment cs) \<le> length cs"
  by (induction cs) auto

function skipWhitespace :: "string \<Rightarrow> string" where
  "skipWhitespace [] = []"
| "skipWhitespace (c # cs) =
     (if c = CHR '' '' \<or> c = CHR 0x09 \<or> c = CHR 0x0A then skipWhitespace cs
      else if c = CHR ''#'' then
        (let input = skipComment cs
         in if input = [] then input else skipWhitespace (tl input))
      else c # cs)"
  by pat_completeness auto
termination
proof (relation "measure length")
  show "wf (measure length)" by simp
next
  fix c :: char and cs :: string
  show "(cs, c # cs) \<in> measure length" by simp
next
  fix c :: char and cs x
  assume "x = skipComment cs" and "x \<noteq> []"
  then show "(tl x, c # cs) \<in> measure length"
    using length_skipComment [of cs] by simp
qed

text \<open>
  \<^verbatim>\<open>parseWord\<close> returns a \<^verbatim>\<open>Token *\<close> (null at the end of the input) and advances
  \<^verbatim>\<open>input\<close>, which it takes by reference: the model returns both. \<open>parseWord_string\<close> is
  the \<^verbatim>\<open>for (;;)\<close> loop that accumulates the local \<^verbatim>\<open>string\<close>.
\<close>

fun parseWord_string :: "string \<Rightarrow> string \<Rightarrow> token option \<times> string" where
  "parseWord_string string [] = (Some (String string), [])"
| "parseWord_string string (c # cs) =
     (if c = CHR '' '' \<or> c = CHR 0x09 \<or> c = CHR 0x0A \<or> c = CHR ''#''
         \<or> c = CHR '';'' \<or> c = CHR ''{'' \<or> c = CHR ''}''
      then (Some (String string), c # cs)
      else parseWord_string (string @ [c]) cs)"

fun parseWord :: "string \<Rightarrow> token option \<times> string" where
  "parseWord [] = (None, [])"
| "parseWord (c # cs) =
     (if c = CHR '';'' then (Some Semicolon, cs)
      else if c = CHR ''{'' then (Some OpeningBrace, cs)
      else if c = CHR ''}'' then (Some ClosingBrace, cs)
      else parseWord_string [] (c # cs))"

lemma length_skipWhitespace: "length (skipWhitespace cs) \<le> length cs"
proof (induction cs rule: skipWhitespace.induct)
  case 1
  show ?case by simp
next
  case (2 c cs)
  show ?case
  proof (cases "c = CHR '' '' \<or> c = CHR 0x09 \<or> c = CHR 0x0A")
    case True
    with 2 show ?thesis by simp
  next
    case ws: False
    show ?thesis
    proof (cases "c = CHR ''#''")
      case False
      with ws show ?thesis by simp
    next
      case True
      show ?thesis
      proof (cases "skipComment cs = []")
        case True
        with ws \<open>c = CHR ''#''\<close> show ?thesis by simp
      next
        case False
        have "length (skipWhitespace (tl (skipComment cs))) \<le> length (tl (skipComment cs))"
          using 2(2) [OF ws True refl False] .
        also have "\<dots> \<le> length cs"
          using length_skipComment [of cs] by simp
        finally show ?thesis
          using ws True False by (simp add: Let_def)
      qed
    qed
  qed
qed

text \<open>Where \<^verbatim>\<open>skipWhitespace\<close> stops: at the end, or at a character it does not skip.\<close>

lemma skipWhitespace_stops:
  "skipWhitespace cs = c # r \<Longrightarrow>
     c \<noteq> CHR '' '' \<and> c \<noteq> CHR 0x09 \<and> c \<noteq> CHR 0x0A \<and> c \<noteq> CHR ''#''"
  by (induction cs rule: skipWhitespace.induct) (auto simp: Let_def split: if_splits)

lemma length_parseWord_string: "length (snd (parseWord_string s cs)) \<le> length cs"
  by (induction s cs rule: parseWord_string.induct) auto

lemma parseWord_advances:
  assumes "c \<noteq> CHR '' ''" "c \<noteq> CHR 0x09" "c \<noteq> CHR 0x0A" "c \<noteq> CHR ''#''"
  shows "length (snd (parseWord (c # cs))) < Suc (length cs)"
  using assms length_parseWord_string [of "[c]" cs]
  by (simp add: less_Suc_eq_le)

lemma parse_step_decreases:
  assumes "input \<noteq> []"
  shows "length (snd (parseWord (skipWhitespace input))) < length input"
proof (cases "skipWhitespace input")
  case Nil
  with assms show ?thesis by simp
next
  case (Cons c r)
  from skipWhitespace_stops [OF Cons]
  have "length (snd (parseWord (c # r))) < Suc (length r)"
    by (intro parseWord_advances) simp_all
  also have "\<dots> = length (skipWhitespace input)"
    using Cons by simp
  also have "\<dots> \<le> length input"
    by (rule length_skipWhitespace)
  finally show ?thesis
    using Cons by simp
qed

text \<open>
  \<^verbatim>\<open>parse\<close>: the loop \<^verbatim>\<open>for (; input != end;)\<close> with its local \<^verbatim>\<open>output\<close>; a null
  \<^verbatim>\<open>word\<close> is not pushed.
\<close>

function parse_loop :: "token list \<Rightarrow> string \<Rightarrow> token list" where
  "parse_loop output input =
     (if input = [] then output
      else
        (let input1 = skipWhitespace input;
             (word, input2) = parseWord input1
         in parse_loop (case word of None \<Rightarrow> output | Some w \<Rightarrow> output @ [w]) input2))"
  by pat_completeness auto
termination
proof (relation "measure (\<lambda>(output, input). length input)")
  show "wf (measure (\<lambda>(output, input). length input))" by simp
next
  fix out :: "token list" and input x :: string and xa :: "token option \<times> string"
    and xb :: "token option" and y :: string
  assume "input \<noteq> []" "x = skipWhitespace input" "xa = parseWord x" "(xb, y) = xa"
  then have "y = snd (parseWord (skipWhitespace input))"
    by (metis snd_conv)
  then show "((case xb of None \<Rightarrow> out | Some w \<Rightarrow> out @ [w], y), out, input)
      \<in> measure (\<lambda>(output, input). length input)"
    using parse_step_decreases [OF \<open>input \<noteq> []\<close>] by simp
qed

declare parse_loop.simps [simp del]

definition parse :: "string \<Rightarrow> token list" where
  "parse input = parse_loop [] input"

section \<open>Grouper\<close>

text \<open>
  \<^verbatim>\<open>parseGroups\<close>: the iterator pair over the token vector is the list of the tokens from
  \<^verbatim>\<open>input\<close> to \<^verbatim>\<open>end\<close>, and the returned \<^verbatim>\<open>ParseGroups\<close> is the pair of its
  \<^verbatim>\<open>content\<close> and of the tokens from \<^verbatim>\<open>rest\<close> to \<^verbatim>\<open>end\<close>. \<open>parseGroups_loop\<close> is the
  \<^verbatim>\<open>for\<close> loop with its local \<^verbatim>\<open>output\<close>. After an opening brace the loop continues
  from \<^verbatim>\<open>p.rest\<close>, and its \<^verbatim>\<open>++input\<close> steps over the token found there.
\<close>

function parseGroups_loop ::
  "token list \<Rightarrow> token list \<Rightarrow> error + (token list \<times> token list)" where
  "parseGroups_loop output [] = Inr (output, [])"
| "parseGroups_loop output (t # ts) =
     (if t = ClosingBrace then Inr (output, t # ts)
      else if t = OpeningBrace then
        (case parseGroups_loop [] ts of
           Inl e \<Rightarrow> Inl e
         | Inr (content, rest) \<Rightarrow>
             if rest = [] then Inl (ParsingError ''No matching closing curly brace'')
             else parseGroups_loop (output @ [Group content]) (tl rest))
      else parseGroups_loop (output @ [t]) ts)"
  by pat_completeness auto

lemma parseGroups_loop_rest_dom:
  "parseGroups_loop_dom (out, ts) \<Longrightarrow> parseGroups_loop out ts = Inr (c, r) \<Longrightarrow>
     length r \<le> length ts"
proof (induction out ts arbitrary: c r rule: parseGroups_loop.pinduct)
  case (1 out)
  then show ?case by (simp add: parseGroups_loop.psimps)
next
  case (2 out t ts)
  show ?case
  proof (cases "t = ClosingBrace")
    case True
    with 2(1,5) show ?thesis by (simp add: parseGroups_loop.psimps)
  next
    case nc: False
    show ?thesis
    proof (cases "t = OpeningBrace")
      case False
      with nc 2(1,5) have "parseGroups_loop (out @ [t]) ts = Inr (c, r)"
        by (simp add: parseGroups_loop.psimps)
      from 2(4) [OF nc False this] show ?thesis by simp
    next
      case True
      from 2(1,5) nc True obtain c1 r1 where
        inner: "parseGroups_loop [] ts = Inr (c1, r1)" and "r1 \<noteq> []"
        and outer: "parseGroups_loop (out @ [Group c1]) (tl r1) = Inr (c, r)"
        by (auto simp: parseGroups_loop.psimps split: sum.splits if_splits)
      have "length r1 \<le> length ts"
        using 2(2) [OF nc True inner] .
      moreover have "length r \<le> length (tl r1)"
        using 2(3) [OF nc True inner refl \<open>r1 \<noteq> []\<close> outer] .
      ultimately show ?thesis by simp
    qed
  qed
qed

termination parseGroups_loop
proof (relation "measure (\<lambda>(out, ts). length ts)")
  show "wf (measure (\<lambda>(out :: token list, ts :: token list). length ts))" by simp
next
  fix out :: "token list" and t :: token and ts :: "token list"
  show "(([], ts), out, t # ts) \<in> measure (\<lambda>(out, ts). length ts)" by simp
next
  fix out :: "token list" and t :: token and ts :: "token list"
    and x :: "token list \<times> token list" and c r :: "token list"
  assume "parseGroups_loop [] ts = Inr x" "(c, r) = x" "r \<noteq> []"
    and "parseGroups_loop_dom ([], ts)"
  then have "length r \<le> length ts"
    using parseGroups_loop_rest_dom [of "[]" ts c r] by simp
  with \<open>r \<noteq> []\<close> show "((out @ [Group c], tl r), out, t # ts) \<in> measure (\<lambda>(out, ts). length ts)"
    by simp
next
  fix out :: "token list" and t :: token and ts :: "token list"
  show "((out @ [t], ts), out, t # ts) \<in> measure (\<lambda>(out, ts). length ts)" by simp
qed

definition parseGroups :: "token list \<Rightarrow> error + (token list \<times> token list)" where
  "parseGroups input = parseGroups_loop [] input"

section \<open>Block builder\<close>

text \<open>
  The inner loop of \<^verbatim>\<open>parse_block\<close> (\<^verbatim>\<open>// Parse args.\<close>): it pushes the content of
  every \<^verbatim>\<open>String\<close> to \<^verbatim>\<open>d.args\<close>, throws at the end of the input and leaves the loop
  at the first token that is not a \<^verbatim>\<open>String\<close>.
\<close>

fun parse_block_args :: "string list \<Rightarrow> token list \<Rightarrow> error + (string list \<times> token list)" where
  "parse_block_args ar [] =
     Inl (ParsingError ''parse_block: directive: unexpected end of input'')"
| "parse_block_args ar (String s # ts) = parse_block_args (ar @ [s]) ts"
| "parse_block_args ar (t # ts) = Inr (ar, t # ts)"

lemma parse_block_args_size:
  "parse_block_args ar ts = Inr (ar', rest) \<Longrightarrow> size_list size rest \<le> size_list size ts"
  by (induction ar ts rule: parse_block_args.induct) auto

text \<open>
  \<^verbatim>\<open>parse_block\<close>: the outer \<^verbatim>\<open>for (;;)\<close> loop with its local \<^verbatim>\<open>output\<close>. The reference
  cast of the directive's name throws \<^verbatim>\<open>std::bad_cast\<close> on a token that is not a
  \<^verbatim>\<open>String\<close>. The source tests the end of the input once more after the arguments; the
  model keeps that test.
\<close>

function parse_block_loop :: "block \<Rightarrow> token list \<Rightarrow> error + block" where
  "parse_block_loop output [] = Inr output"
| "parse_block_loop output (t # ts) =
     (case t of
        String n \<Rightarrow>
          (case parse_block_args [] ts of
             Inl e \<Rightarrow> Inl e
           | Inr (ar, input) \<Rightarrow>
               (case input of
                  [] \<Rightarrow> Inl (ParsingError ''unexpected end of input'')
                | Semicolon # input' \<Rightarrow>
                    parse_block_loop (output @ [Directive n ar None]) input'
                | Group g # input' \<Rightarrow>
                    (case parse_block_loop [] g of
                       Inl e \<Rightarrow> Inl e
                     | Inr b \<Rightarrow> parse_block_loop (output @ [Directive n ar (Some b)]) input')
                | _ # _ \<Rightarrow> Inl (ParsingError ''parse_block: directive: expected ; or {'')))
      | _ \<Rightarrow> Inl bad_cast)"
  by pat_completeness auto
termination
proof (relation "measure (\<lambda>(out, ts). size_list size ts)", goal_cases)
  case 1
  show ?case by simp
next
  case (2 out t ts n x ar input t' input')
  then show ?case
    using parse_block_args_size [of "[]" ts ar input] by simp
next
  case (3 out t ts n x ar input t' input' g)
  then show ?case
    using parse_block_args_size [of "[]" ts ar input] by simp
next
  case (4 out t ts n x ar input t' input' g b)
  then show ?case
    using parse_block_args_size [of "[]" ts ar input] by simp
qed

definition parse_block :: "token list \<Rightarrow> error + block" where
  "parse_block input = parse_block_loop [] input"

text \<open>
  The last block of \<^verbatim>\<open>main\<close>: \<^verbatim>\<open>parse\<close>, then \<^verbatim>\<open>parseGroups\<close>, then \<^verbatim>\<open>parse_block\<close> on
  \<^verbatim>\<open>g.content\<close>. \<^verbatim>\<open>main\<close> does not read \<^verbatim>\<open>g.rest\<close>.
\<close>

definition parse_config :: "string \<Rightarrow> error + block" where
  "parse_config input =
     (let tokens = parse input
      in case parseGroups tokens of
           Inl e \<Rightarrow> Inl e
         | Inr (g_content, g_rest) \<Rightarrow> parse_block g_content)"

section \<open>Notions used to state the properties\<close>

text \<open>
  The tokenizer produces no \<^verbatim>\<open>Group\<close>: a token sequence in the sense of the
  specification is a sequence of the four other kinds of token.
\<close>

fun is_String :: "token \<Rightarrow> bool" where
  "is_String (String s) = True"
| "is_String t = False"

fun is_Group :: "token \<Rightarrow> bool" where
  "is_Group (Group g) = True"
| "is_Group t = False"

definition flat :: "token list \<Rightarrow> bool" where
  "flat ts = list_all (\<lambda>t. \<not> is_Group t) ts"

text \<open>No brace token occurs in the tree, at any depth.\<close>

fun brace_free :: "token \<Rightarrow> bool" where
  "brace_free OpeningBrace = False"
| "brace_free ClosingBrace = False"
| "brace_free (Group g) = list_all brace_free g"
| "brace_free t = True"

text \<open>
  The token sequence a tree stands for: every \<^verbatim>\<open>Group\<close> gives back one opening brace, its
  content and one closing brace.
\<close>

fun ungroup :: "token \<Rightarrow> token list" where
  "ungroup (Group g) = OpeningBrace # concat (map ungroup g) @ [ClosingBrace]"
| "ungroup t = [t]"

text \<open>
  An input text with balanced braces and well-formed directives, read from the
  specification and not from \<^verbatim>\<open>parse\<close>: a scan of the characters. A comment runs from
  \<^verbatim>\<open>#\<close> to the end of its line (\<open>cm\<close> holds inside one); \<open>d\<close> is the number of the
  braces that are open; \<open>dir\<close> holds when the name of a directive has been read and its
  semicolon or its block has not. The grammar is
  \<^verbatim>\<open>Directive := STRING Arg* ( ';' | '{' Block '}' )\<close>: a semicolon and an opening brace
  must end a directive, a closing brace must close an open brace with no directive
  pending, and at the end of the text no directive is pending and no brace is open.
  The text as a whole is well formed when \<open>well_formed_text False False 0\<close> holds of it.
\<close>

fun well_formed_text :: "bool \<Rightarrow> bool \<Rightarrow> nat \<Rightarrow> string \<Rightarrow> bool" where
  "well_formed_text cm dir d [] = (\<not> dir \<and> d = 0)"
| "well_formed_text cm dir d (c # cs) =
     (if cm then well_formed_text (c \<noteq> CHR 0x0A) dir d cs
      else if c = CHR ''#'' then well_formed_text True dir d cs
      else if c = CHR '' '' \<or> c = CHR 0x09 \<or> c = CHR 0x0A then well_formed_text False dir d cs
      else if c = CHR '';'' then dir \<and> well_formed_text False False d cs
      else if c = CHR ''{'' then dir \<and> well_formed_text False False (Suc d) cs
      else if c = CHR ''}'' then \<not> dir \<and> 0 < d \<and> well_formed_text False False (d - 1) cs
      else well_formed_text False True d cs)"

text \<open>
  The number of the top-level terminators and of the top-level groups of an input text:
  the semicolons and the opening braces outside the comments, at brace depth 0.
\<close>

fun count_top_text :: "bool \<Rightarrow> nat \<Rightarrow> string \<Rightarrow> nat" where
  "count_top_text cm d [] = 0"
| "count_top_text cm d (c # cs) =
     (if cm then count_top_text (c \<noteq> CHR 0x0A) d cs
      else if c = CHR ''#'' then count_top_text True d cs
      else if c = CHR '';'' then (if d = 0 then 1 else 0) + count_top_text False d cs
      else if c = CHR ''{'' then (if d = 0 then 1 else 0) + count_top_text False (Suc d) cs
      else if c = CHR ''}'' then count_top_text False (d - 1) cs
      else count_top_text False d cs)"

text \<open>
  The same two scans on a token sequence, and the characters that a string literal is
  made of; the proofs go from the text to the tokens through them.
\<close>

fun wf_tokens :: "bool \<Rightarrow> nat \<Rightarrow> token list \<Rightarrow> bool" where
  "wf_tokens dir d [] = (\<not> dir \<and> d = 0)"
| "wf_tokens dir d (String s # ts) = wf_tokens True d ts"
| "wf_tokens dir d (Semicolon # ts) = (dir \<and> wf_tokens False d ts)"
| "wf_tokens dir d (OpeningBrace # ts) = (dir \<and> wf_tokens False (Suc d) ts)"
| "wf_tokens dir d (ClosingBrace # ts) = (\<not> dir \<and> 0 < d \<and> wf_tokens False (d - 1) ts)"
| "wf_tokens dir d (Group g # ts) = False"

fun count_top :: "nat \<Rightarrow> token list \<Rightarrow> nat" where
  "count_top d [] = 0"
| "count_top d (Semicolon # ts) = (if d = 0 then 1 else 0) + count_top d ts"
| "count_top d (OpeningBrace # ts) = (if d = 0 then 1 else 0) + count_top (Suc d) ts"
| "count_top d (ClosingBrace # ts) = count_top (d - 1) ts"
| "count_top d (t # ts) = count_top d ts"

definition wordchar :: "char \<Rightarrow> bool" where
  "wordchar c = (\<not> (c = CHR '' '' \<or> c = CHR 0x09 \<or> c = CHR 0x0A \<or> c = CHR ''#''
         \<or> c = CHR '';'' \<or> c = CHR ''{'' \<or> c = CHR ''}''))"

text \<open>
  The nodes \<open>g\<close> that remain of a block give \<open>k\<close> directives: from the head of the outer
  loop of \<^verbatim>\<open>parse_block\<close>, or (\<open>dir\<close>) after the name and some arguments of a pending
  directive.
\<close>

definition block_tail :: "bool \<Rightarrow> token list \<Rightarrow> nat \<Rightarrow> bool" where
  "block_tail dir g k =
     (if dir then
        (\<forall>acc n ar. \<exists>ds.
           parse_block_loop acc (String n # map String ar @ g) = Inr (acc @ ds) \<and> length ds = k)
      else (\<forall>acc. \<exists>ds. parse_block_loop acc g = Inr (acc @ ds) \<and> length ds = k))"

text \<open>
  How a directive of the output was written: \<open>ended_by d t\<close> holds when the node \<open>t\<close> that
  ends the directive is a semicolon and \<open>d\<close> has no body, or is a group and the body of
  \<open>d\<close> is the block of that group.
\<close>

fun ended_by :: "directive \<Rightarrow> token \<Rightarrow> bool" where
  "ended_by d Semicolon = (config d = None)"
| "ended_by d (Group g) = (case config d of None \<Rightarrow> False | Some b \<Rightarrow> parse_block g = Inr b)"
| "ended_by d t = False"

section \<open>Lemmas on the grouper\<close>

lemma parseGroups_loop_ClosingBrace [simp]:
  "parseGroups_loop out (ClosingBrace # ts) = Inr (out, ClosingBrace # ts)"
  by simp

lemma parseGroups_loop_OpeningBrace:
  "parseGroups_loop out (OpeningBrace # ts) =
     (case parseGroups_loop [] ts of
        Inl e \<Rightarrow> Inl e
      | Inr (c, r) \<Rightarrow>
          if r = [] then Inl UnmatchedOpeningBrace
          else parseGroups_loop (out @ [Group c]) (tl r))"
  by (simp add: UnmatchedOpeningBrace_def split: sum.splits)

lemma parseGroups_loop_other:
  "t \<noteq> ClosingBrace \<Longrightarrow> t \<noteq> OpeningBrace \<Longrightarrow>
     parseGroups_loop out (t # ts) = parseGroups_loop (out @ [t]) ts"
  by simp

lemma parseGroups_loop_cases [consumes 1, case_names Nil Closing Opening Other]:
  assumes "parseGroups_loop out ts = Inr (c, r)"
    and "ts = [] \<Longrightarrow> c = out \<Longrightarrow> r = [] \<Longrightarrow> P"
    and "\<And>ts'. ts = ClosingBrace # ts' \<Longrightarrow> c = out \<Longrightarrow> r = ts \<Longrightarrow> P"
    and "\<And>ts' c1 r1. ts = OpeningBrace # ts' \<Longrightarrow> parseGroups_loop [] ts' = Inr (c1, r1) \<Longrightarrow>
           r1 \<noteq> [] \<Longrightarrow> parseGroups_loop (out @ [Group c1]) (tl r1) = Inr (c, r) \<Longrightarrow> P"
    and "\<And>t ts'. ts = t # ts' \<Longrightarrow> t \<noteq> ClosingBrace \<Longrightarrow> t \<noteq> OpeningBrace \<Longrightarrow>
           parseGroups_loop (out @ [t]) ts' = Inr (c, r) \<Longrightarrow> P"
  shows P
proof (cases ts)
  case Nil
  with assms(1) have "c = out" "r = []" by simp_all
  with Nil show ?thesis by (rule assms(2))
next
  case (Cons t ts')
  show ?thesis
  proof (cases "t = ClosingBrace")
    case True
    with Cons assms(1) have "ts = ClosingBrace # ts'" "c = out" "r = ts" by simp_all
    then show ?thesis by (rule assms(3))
  next
    case nc: False
    show ?thesis
    proof (cases "t = OpeningBrace")
      case False
      with nc Cons assms(1) have "parseGroups_loop (out @ [t]) ts' = Inr (c, r)" by simp
      with Cons nc False show ?thesis by (rule assms(5))
    next
      case True
      with Cons assms(1) obtain c1 r1 where
        "parseGroups_loop [] ts' = Inr (c1, r1)" "r1 \<noteq> []"
        "parseGroups_loop (out @ [Group c1]) (tl r1) = Inr (c, r)"
        by (auto split: sum.splits if_splits)
      with Cons True show ?thesis by (intro assms(4)) simp_all
    qed
  qed
qed

lemma parseGroups_loop_stops:
  "parseGroups_loop out ts = Inr (c, r) \<Longrightarrow> r = [] \<or> (\<exists>r'. r = ClosingBrace # r')"
proof (induction out ts arbitrary: c r rule: parseGroups_loop.induct)
  case (1 out)
  then show ?case by simp
next
  case (2 out t ts)
  from 2(4) show ?case
  proof (cases rule: parseGroups_loop_cases)
    case Nil
    then show ?thesis by simp
  next
    case (Closing ts')
    then show ?thesis by simp
  next
    case (Opening ts' c1 r1)
    with 2(2) [of "(c1, r1)" c1 r1 c r] show ?thesis by simp
  next
    case (Other t' ts')
    with 2(3) [of c r] show ?thesis by simp
  qed
qed

lemma parseGroups_loop_error:
  "parseGroups_loop out ts = Inl e \<Longrightarrow> e = UnmatchedOpeningBrace"
proof (induction out ts rule: parseGroups_loop.induct)
  case (1 out)
  then show ?case by simp
next
  case (2 out t ts)
  show ?case
  proof (cases "t = ClosingBrace")
    case True
    with 2(4) show ?thesis by simp
  next
    case nc: False
    show ?thesis
    proof (cases "t = OpeningBrace")
      case False
      with nc 2(3,4) show ?thesis by simp
    next
      case True
      show ?thesis
      proof (cases "parseGroups_loop [] ts")
        case (Inl e')
        with 2(1,4) nc True show ?thesis by simp
      next
        case (Inr p)
        obtain c1 r1 where p: "p = (c1, r1)" by (cases p)
        show ?thesis
        proof (cases "r1 = []")
          case True
          with 2(4) nc \<open>t = OpeningBrace\<close> Inr p show ?thesis
            by (simp add: UnmatchedOpeningBrace_def)
        next
          case False
          with 2(4) nc \<open>t = OpeningBrace\<close> Inr p
          have "parseGroups_loop (out @ [Group c1]) (tl r1) = Inl e" by simp
          with 2(2) [OF nc \<open>t = OpeningBrace\<close> Inr [unfolded p] refl False] show ?thesis .
        qed
      qed
    qed
  qed
qed

lemma parseGroups_loop_append_rest:
  "parseGroups_loop out ts = Inr (c, r) \<Longrightarrow> r \<noteq> [] \<Longrightarrow>
     parseGroups_loop out (ts @ k) = Inr (c, r @ k)"
proof (induction out ts arbitrary: c r rule: parseGroups_loop.induct)
  case (1 out)
  then show ?case by simp
next
  case (2 out t ts)
  from 2(4) show ?case
  proof (cases rule: parseGroups_loop_cases)
    case Nil
    then show ?thesis by simp
  next
    case (Closing ts')
    then show ?thesis by simp
  next
    case (Opening ts' c1 r1)
    then have t: "t = OpeningBrace" "ts' = ts" by simp_all
    have "parseGroups_loop [] (ts @ k) = Inr (c1, r1 @ k)"
      using 2(1) [of c1 r1] Opening t by simp
    moreover have "parseGroups_loop (out @ [Group c1]) (tl r1 @ k) = Inr (c, r @ k)"
      using 2(2) [of "(c1, r1)" c1 r1 c r] Opening t 2(5) by simp
    ultimately show ?thesis
      using t \<open>r1 \<noteq> []\<close> by (simp add: parseGroups_loop_OpeningBrace)
  next
    case (Other t' ts')
    with 2(3) [of c r] 2(5) show ?thesis by simp
  qed
qed

lemma parseGroups_loop_append_end:
  "parseGroups_loop out ts = Inr (c, []) \<Longrightarrow>
     parseGroups_loop out (ts @ k) = parseGroups_loop c k"
proof (induction out ts arbitrary: c rule: parseGroups_loop.induct)
  case (1 out)
  then show ?case by simp
next
  case (2 out t ts)
  from 2(4) show ?case
  proof (cases rule: parseGroups_loop_cases)
    case Nil
    then show ?thesis by simp
  next
    case (Closing ts')
    then show ?thesis by simp
  next
    case (Opening ts' c1 r1)
    then have t: "t = OpeningBrace" "ts' = ts" by simp_all
    have "parseGroups_loop [] (ts @ k) = Inr (c1, r1 @ k)"
      using parseGroups_loop_append_rest [of "[]" ts c1 r1 k] Opening t by simp
    moreover have "parseGroups_loop (out @ [Group c1]) (tl r1 @ k) = parseGroups_loop c k"
      using 2(2) [of "(c1, r1)" c1 r1 c] Opening t by simp
    ultimately show ?thesis
      using t \<open>r1 \<noteq> []\<close> by (simp add: parseGroups_loop_OpeningBrace)
  next
    case (Other t' ts')
    with 2(3) [of c] show ?thesis by simp
  qed
qed

section \<open>Lemmas on the block builder\<close>

lemma parse_block_args_Inr:
  "parse_block_args ar ts = Inr (ar', rest) \<Longrightarrow>
     \<exists>ss t r. ts = map String ss @ rest \<and> ar' = ar @ ss \<and> rest = t # r \<and> \<not> is_String t"
proof (induction ar ts rule: parse_block_args.induct)
  case (1 ar)
  then show ?case by simp
next
  case (2 ar s ts)
  then obtain ss t r where
    "ts = map String ss @ rest" "ar' = (ar @ [s]) @ ss" "rest = t # r" "\<not> is_String t"
    by auto
  then have "String s # ts = map String (s # ss) @ rest \<and> ar' = ar @ (s # ss)
      \<and> rest = t # r \<and> \<not> is_String t"
    by simp
  then show ?case by blast
qed (force+)

lemma parse_block_args_strings:
  "\<not> is_String t \<Longrightarrow> parse_block_args ar (map String ss @ t # r) = Inr (ar @ ss, t # r)"
  by (induction ss arbitrary: ar) (cases t; simp)+

lemma parse_block_args_append:
  assumes "parse_block_args ar ts = Inr (ar', rest)"
  shows "parse_block_args ar (ts @ k) = Inr (ar', rest @ k)"
proof -
  from parse_block_args_Inr [OF assms] obtain ss t r where
    "ts = map String ss @ rest" "ar' = ar @ ss" "rest = t # r" "\<not> is_String t"
    by blast
  then show ?thesis
    using parse_block_args_strings [of t ar ss "r @ k"] by simp
qed

lemma parse_block_loop_not_String:
  "\<not> is_String t \<Longrightarrow> parse_block_loop out (t # ts) = Inl bad_cast"
  by (cases t) simp_all

lemma parse_block_loop_Semicolon:
  "parse_block_args [] ts = Inr (ar, Semicolon # input') \<Longrightarrow>
     parse_block_loop out (String n # ts) = parse_block_loop (out @ [Directive n ar None]) input'"
  by simp

lemma parse_block_loop_Group:
  "parse_block_args [] ts = Inr (ar, Group g # input') \<Longrightarrow>
     parse_block_loop out (String n # ts) =
       (case parse_block_loop [] g of
          Inl e \<Rightarrow> Inl e
        | Inr b \<Rightarrow> parse_block_loop (out @ [Directive n ar (Some b)]) input')"
  by simp

lemma parse_block_loop_cases [consumes 1, case_names Nil Semicolon Group]:
  assumes "parse_block_loop out ts = Inr b"
    and "ts = [] \<Longrightarrow> b = out \<Longrightarrow> P"
    and "\<And>n ts' ar input'. ts = String n # ts' \<Longrightarrow>
           parse_block_args [] ts' = Inr (ar, Semicolon # input') \<Longrightarrow>
           parse_block_loop (out @ [Directive n ar None]) input' = Inr b \<Longrightarrow> P"
    and "\<And>n ts' ar g input' body. ts = String n # ts' \<Longrightarrow>
           parse_block_args [] ts' = Inr (ar, Group g # input') \<Longrightarrow>
           parse_block_loop [] g = Inr body \<Longrightarrow>
           parse_block_loop (out @ [Directive n ar (Some body)]) input' = Inr b \<Longrightarrow> P"
  shows P
proof (cases ts)
  case Nil
  with assms(1) have "b = out" by simp
  with Nil show ?thesis by (rule assms(2))
next
  case (Cons t ts')
  with assms(1) obtain n where n: "t = String n"
    by (cases t) simp_all
  from assms(1) Cons n obtain ar input where
    ar: "parse_block_args [] ts' = Inr (ar, input)"
    by (cases "parse_block_args [] ts'") auto
  from parse_block_args_Inr [OF ar] obtain u input' where input: "input = u # input'"
    by blast
  show ?thesis
  proof (cases u)
    case Semicolon
    with assms(1) Cons n ar input
    have "parse_block_loop (out @ [Directive n ar None]) input' = Inr b" by simp
    with Cons n ar input Semicolon show ?thesis by (intro assms(3)) simp_all
  next
    case (Group g)
    with assms(1) Cons n ar input obtain body where
      "parse_block_loop [] g = Inr body"
      "parse_block_loop (out @ [Directive n ar (Some body)]) input' = Inr b"
      by (cases "parse_block_loop [] g") simp_all
    with Cons n ar input Group show ?thesis by (intro assms(4)) simp_all
  qed (use assms(1) Cons n ar input in simp_all)
qed

lemma parse_block_loop_append:
  "parse_block_loop out pre = Inr out' \<Longrightarrow>
     parse_block_loop out (pre @ k) = parse_block_loop out' k"
proof (induction out pre arbitrary: out' rule: parse_block_loop.induct)
  case (1 out)
  then show ?case by simp
next
  case (2 out t ts)
  from 2(4) show ?case
  proof (cases rule: parse_block_loop_cases)
    case Nil
    then show ?thesis by simp
  next
    case (Semicolon n ts' ar input')
    then have t: "t = String n" "ts' = ts" by simp_all
    have "parse_block_loop (out @ [Directive n ar None]) (input' @ k) = parse_block_loop out' k"
      using 2(1) [of n "(ar, Semicolon # input')" ar "Semicolon # input'" Semicolon input' out']
        Semicolon t by simp
    then show ?thesis
      using parse_block_args_append [of "[]" ts ar "Semicolon # input'" k] Semicolon t
      by simp
  next
    case (Group n ts' ar g input' body)
    then have t: "t = String n" "ts' = ts" by simp_all
    have "parse_block_loop (out @ [Directive n ar (Some body)]) (input' @ k)
        = parse_block_loop out' k"
      using 2(3) [of n "(ar, Group g # input')" ar "Group g # input'" "Group g" input' g body out']
        Group t by simp
    then show ?thesis
      using parse_block_args_append [of "[]" ts ar "Group g # input'" k] Group t
      by simp
  qed
qed

section \<open>Lemmas on the tokenizer\<close>

lemma parseWord_string_result:
  "parseWord_string s cs = (w, r) \<Longrightarrow> \<exists>s'. w = Some (String (s @ s'))"
proof (induction s cs rule: parseWord_string.induct)
  case (1 s)
  then show ?case by auto
next
  case (2 s c cs)
  show ?case
  proof (cases "c = CHR '' '' \<or> c = CHR 0x09 \<or> c = CHR 0x0A \<or> c = CHR ''#''
         \<or> c = CHR '';'' \<or> c = CHR ''{'' \<or> c = CHR ''}''")
    case True
    with 2(2) have "w = Some (String (s @ []))" by auto
    then show ?thesis by blast
  next
    case False
    with 2(2) have "parseWord_string (s @ [c]) cs = (w, r)" by simp
    from 2(1) [OF False this] obtain s' where "w = Some (String ((s @ [c]) @ s'))" by blast
    then have "w = Some (String (s @ (c # s')))" by simp
    then show ?thesis by blast
  qed
qed

lemma parseWord_no_empty_String:
  assumes "c \<noteq> CHR '' ''" "c \<noteq> CHR 0x09" "c \<noteq> CHR 0x0A" "c \<noteq> CHR ''#''"
  shows "fst (parseWord (c # cs)) \<noteq> Some (String '''')"
proof (cases "c = CHR '';'' \<or> c = CHR ''{'' \<or> c = CHR ''}''")
  case True
  then show ?thesis by auto
next
  case False
  with assms have eq: "parseWord (c # cs) = parseWord_string [c] cs" by simp
  obtain w r where wr: "parseWord_string [c] cs = (w, r)" by (cases "parseWord_string [c] cs")
  from parseWord_string_result [OF wr] obtain s' where "w = Some (String ([c] @ s'))" by blast
  with eq wr show ?thesis by simp
qed

lemma parseWord_after_skipWhitespace:
  "fst (parseWord (skipWhitespace input)) \<noteq> Some (String '''')"
proof (cases "skipWhitespace input")
  case Nil
  then show ?thesis by simp
next
  case (Cons c r)
  from skipWhitespace_stops [OF Cons] show ?thesis
    unfolding Cons by (intro parseWord_no_empty_String) simp_all
qed

lemma parse_loop_no_empty_String:
  "String '''' \<notin> set out \<Longrightarrow> String '''' \<notin> set (parse_loop out input)"
proof (induction out input rule: parse_loop.induct)
  case (1 out input)
  show ?case
  proof (cases "input = []")
    case True
    with 1(2) show ?thesis by (simp add: parse_loop.simps)
  next
    case False
    obtain word input2 where p: "parseWord (skipWhitespace input) = (word, input2)"
      by (cases "parseWord (skipWhitespace input)")
    let ?out = "case word of None \<Rightarrow> out | Some w \<Rightarrow> out @ [w]"
    have "word \<noteq> Some (String '''')"
      using parseWord_after_skipWhitespace [of input] p by simp
    with 1(2) have "String '''' \<notin> set ?out"
      by (cases word) auto
    from 1(1) [OF False refl p [symmetric] refl this]
    have "String '''' \<notin> set (parse_loop ?out input2)" .
    moreover have "parse_loop out input = parse_loop ?out input2"
      using False p by (subst parse_loop.simps) simp
    ultimately show ?thesis by simp
  qed
qed

section \<open>The tree of the grouper\<close>

lemma flat_append: "flat (xs @ ys) \<longleftrightarrow> flat xs \<and> flat ys"
  by (simp add: flat_def)

lemma flat_Cons: "flat (t # ts) \<longleftrightarrow> \<not> is_Group t \<and> flat ts"
  by (simp add: flat_def)

lemma ungroup_flat_leaf:
  "\<not> is_Group t \<Longrightarrow> ungroup t = [t]"
  by (cases t) simp_all

lemma brace_free_leaf:
  "\<not> is_Group t \<Longrightarrow> t \<noteq> ClosingBrace \<Longrightarrow> t \<noteq> OpeningBrace \<Longrightarrow> brace_free t"
  by (cases t) simp_all

lemma parseGroups_loop_tree:
  "parseGroups_loop out ts = Inr (c, r) \<Longrightarrow> flat ts \<Longrightarrow>
     \<exists>g. c = out @ g \<and> list_all brace_free g \<and> concat (map ungroup g) @ r = ts"
proof (induction out ts arbitrary: c r rule: parseGroups_loop.induct)
  case (1 out)
  then show ?case by simp
next
  case (2 out t ts)
  from 2(4) show ?case
  proof (cases rule: parseGroups_loop_cases)
    case Nil
    then show ?thesis by simp
  next
    case (Closing ts')
    then show ?thesis by simp
  next
    case (Opening ts' c1 r1)
    then have t: "t = OpeningBrace" "ts' = ts" by simp_all
    from 2(5) have "flat ts" by (simp add: flat_Cons)
    with 2(1) [of c1 r1] Opening t obtain g1 where
      g1: "c1 = g1" "list_all brace_free g1" "concat (map ungroup g1) @ r1 = ts"
      by auto
    from parseGroups_loop_stops [of "[]" ts c1 r1] Opening t obtain r1' where
      r1: "r1 = ClosingBrace # r1'" by auto
    from g1(3) \<open>flat ts\<close> have "flat r1"
      by (metis flat_append)
    with r1 have "flat (tl r1)" by (simp add: flat_Cons)
    with 2(2) [of "(c1, r1)" c1 r1 c r] Opening t obtain g2 where
      g2: "c = (out @ [Group c1]) @ g2" "list_all brace_free g2"
        "concat (map ungroup g2) @ r = tl r1"
      by auto
    have "c = out @ (Group c1 # g2)"
      using g2(1) by simp
    moreover have "list_all brace_free (Group c1 # g2)"
      using g1(1,2) g2(2) by simp
    moreover have "concat (map ungroup (Group c1 # g2)) @ r = t # ts"
      using g1(1,3) g2(3) r1 t by auto
    ultimately show ?thesis by blast
  next
    case (Other t' ts')
    then have t: "t' = t" "ts' = ts" by simp_all
    from 2(5) have f: "\<not> is_Group t" "flat ts" by (simp_all add: flat_Cons)
    with 2(3) [of c r] Other t obtain g where
      g: "c = (out @ [t]) @ g" "list_all brace_free g" "concat (map ungroup g) @ r = ts"
      by auto
    have "c = out @ (t # g)"
      using g(1) by simp
    moreover have "list_all brace_free (t # g)"
      using g(2) brace_free_leaf [of t] f(1) Other t by simp
    moreover have "concat (map ungroup (t # g)) @ r = t # ts"
      using g(3) ungroup_flat_leaf [OF f(1)] by simp
    ultimately show ?thesis by blast
  qed
qed

section \<open>The directives of the block builder\<close>

lemma filter_not_String_strings:
  "filter (\<lambda>t. \<not> is_String t) (map String ss @ ts) = filter (\<lambda>t. \<not> is_String t) ts"
  by (induction ss) simp_all

lemma parse_block_loop_ended_by:
  "parse_block_loop out ts = Inr b \<Longrightarrow>
     \<exists>ds. b = out @ ds \<and> list_all2 ended_by ds (filter (\<lambda>t. \<not> is_String t) ts)"
proof (induction out ts arbitrary: b rule: parse_block_loop.induct)
  case (1 out)
  then show ?case by simp
next
  case (2 out t ts)
  from 2(4) show ?case
  proof (cases rule: parse_block_loop_cases)
    case Nil
    then show ?thesis by simp
  next
    case (Semicolon n ts' ar input')
    then have t: "t = String n" "ts' = ts" by simp_all
    from 2(1) [of n "(ar, Semicolon # input')" ar "Semicolon # input'" Semicolon input' b]
      Semicolon t
    obtain ds where ds: "b = (out @ [Directive n ar None]) @ ds"
      "list_all2 ended_by ds (filter (\<lambda>t. \<not> is_String t) input')"
      by auto
    from parse_block_args_Inr [of "[]" ts ar "Semicolon # input'"] Semicolon t
    obtain ss where ss: "ts = map String ss @ Semicolon # input'" by auto
    have "b = out @ (Directive n ar None # ds)"
      using ds(1) by simp
    moreover have "list_all2 ended_by (Directive n ar None # ds)
        (filter (\<lambda>t. \<not> is_String t) (t # ts))"
      using ds(2) t ss by (simp add: filter_not_String_strings)
    ultimately show ?thesis by blast
  next
    case (Group n ts' ar g input' body)
    then have t: "t = String n" "ts' = ts" by simp_all
    from 2(3) [of n "(ar, Group g # input')" ar "Group g # input'" "Group g" input' g body b]
      Group t
    obtain ds where ds: "b = (out @ [Directive n ar (Some body)]) @ ds"
      "list_all2 ended_by ds (filter (\<lambda>t. \<not> is_String t) input')"
      by auto
    from parse_block_args_Inr [of "[]" ts ar "Group g # input'"] Group t
    obtain ss where ss: "ts = map String ss @ Group g # input'" by auto
    have "b = out @ (Directive n ar (Some body) # ds)"
      using ds(1) by simp
    moreover have "list_all2 ended_by (Directive n ar (Some body) # ds)
        (filter (\<lambda>t. \<not> is_String t) (t # ts))"
      using ds(2) t ss Group(3) by (simp add: filter_not_String_strings parse_block_def)
    ultimately show ?thesis by blast
  qed
qed

section \<open>The tokens of a text\<close>

lemma parseWord_string_span:
  "parseWord_string s cs = (Some (String (s @ takeWhile wordchar cs)), dropWhile wordchar cs)"
  by (induction s cs rule: parseWord_string.induct) (auto simp: wordchar_def)

lemma parse_loop_output:
  "parse_loop out input = out @ parse_loop [] input"
proof (induction "length input" arbitrary: out input rule: less_induct)
  case less
  show ?case
  proof (cases "input = []")
    case True
    then show ?thesis by (simp add: parse_loop.simps)
  next
    case False
    obtain word input2 where p: "parseWord (skipWhitespace input) = (word, input2)"
      by (cases "parseWord (skipWhitespace input)")
    have "length input2 < length input"
      using parse_step_decreases [OF False] p by simp
    note IH = less [OF this]
    have "parse_loop out input
        = parse_loop (case word of None \<Rightarrow> out | Some w \<Rightarrow> out @ [w]) input2"
      using False p by (subst parse_loop.simps) simp
    also have "\<dots> = (case word of None \<Rightarrow> out | Some w \<Rightarrow> out @ [w]) @ parse_loop [] input2"
      by (rule IH)
    also have "\<dots> = out @ (case word of None \<Rightarrow> [] | Some w \<Rightarrow> [w]) @ parse_loop [] input2"
      by (cases word) simp_all
    also have "(case word of None \<Rightarrow> [] | Some w \<Rightarrow> [w]) @ parse_loop [] input2
        = parse_loop (case word of None \<Rightarrow> [] | Some w \<Rightarrow> [w]) input2"
      by (rule IH [symmetric])
    also have "\<dots> = parse_loop [] input"
      using False p by (subst (2) parse_loop.simps) (simp split: option.splits)
    finally show ?thesis .
  qed
qed

lemma parse_Nil: "parse [] = []"
  by (simp add: parse_def parse_loop.simps)

lemma parse_step:
  "input \<noteq> [] \<Longrightarrow> parseWord (skipWhitespace input) = (word, input2) \<Longrightarrow>
     parse input = (case word of None \<Rightarrow> [] | Some w \<Rightarrow> [w]) @ parse input2"
proof -
  assume ne: "input \<noteq> []" and p: "parseWord (skipWhitespace input) = (word, input2)"
  have "parse_loop [] input = parse_loop (case word of None \<Rightarrow> [] | Some w \<Rightarrow> [w]) input2"
    using ne p by (subst parse_loop.simps) (simp split: option.splits)
  also have "\<dots> = (case word of None \<Rightarrow> [] | Some w \<Rightarrow> [w]) @ parse_loop [] input2"
    by (rule parse_loop_output)
  finally show ?thesis
    by (simp add: parse_def)
qed

lemma parse_skipWhitespace: "parse (skipWhitespace input) = parse input"
proof (cases "input = []")
  case True
  then show ?thesis by simp
next
  case False
  obtain word input2 where p: "parseWord (skipWhitespace input) = (word, input2)"
    by (cases "parseWord (skipWhitespace input)")
  show ?thesis
  proof (cases "skipWhitespace input")
    case Nil
    with p parse_step [OF False p] show ?thesis by (simp add: parse_Nil)
  next
    case (Cons c r)
    from skipWhitespace_stops [OF Cons] have "skipWhitespace (c # r) = c # r" by simp
    with Cons have "parseWord (skipWhitespace (skipWhitespace input)) = (word, input2)"
      using p by simp
    from parse_step [OF _ this] Cons parse_step [OF False p] show ?thesis by simp
  qed
qed

lemma parse_blank:
  "c = CHR '' '' \<or> c = CHR 0x09 \<or> c = CHR 0x0A \<Longrightarrow> parse (c # cs) = parse cs"
  using parse_skipWhitespace [of "c # cs"] parse_skipWhitespace [of cs] by auto

lemma parse_comment: "parse (CHR ''#'' # cs) = parse (tl (skipComment cs))"
proof (cases "skipComment cs = []")
  case True
  then have "skipWhitespace (CHR ''#'' # cs) = []" by simp
  with parse_skipWhitespace [of "CHR ''#'' # cs"] True show ?thesis
    by (simp add: parse_Nil)
next
  case False
  then have "skipWhitespace (CHR ''#'' # cs) = skipWhitespace (tl (skipComment cs))"
    by (simp add: Let_def)
  with parse_skipWhitespace [of "CHR ''#'' # cs"] parse_skipWhitespace [of "tl (skipComment cs)"]
  show ?thesis by simp
qed

lemma parse_Semicolon: "parse (CHR '';'' # cs) = Semicolon # parse cs"
  using parse_step [of "CHR '';'' # cs" "Some Semicolon" cs] by simp

lemma parse_OpeningBrace: "parse (CHR ''{'' # cs) = OpeningBrace # parse cs"
  using parse_step [of "CHR ''{'' # cs" "Some OpeningBrace" cs] by simp

lemma parse_ClosingBrace: "parse (CHR ''}'' # cs) = ClosingBrace # parse cs"
  using parse_step [of "CHR ''}'' # cs" "Some ClosingBrace" cs] by simp

lemma parse_word:
  assumes "wordchar c"
  shows "parse (c # cs) = String (c # takeWhile wordchar cs) # parse (dropWhile wordchar cs)"
proof -
  have "skipWhitespace (c # cs) = c # cs"
    using assms by (simp add: wordchar_def)
  moreover have "parseWord (c # cs)
      = (Some (String (c # takeWhile wordchar cs)), dropWhile wordchar cs)"
    using assms parseWord_string_span [of "[]" "c # cs"] by (simp add: wordchar_def)
  ultimately show ?thesis
    using parse_step [of "c # cs" "Some (String (c # takeWhile wordchar cs))"
        "dropWhile wordchar cs"]
    by simp
qed


lemma well_formed_text_comment:
  "well_formed_text True dir d cs = well_formed_text False dir d (tl (skipComment cs))"
  by (induction cs) simp_all

lemma well_formed_text_word:
  "well_formed_text False True d cs = well_formed_text False True d (dropWhile wordchar cs)"
  by (induction cs) (simp_all add: wordchar_def)

lemma count_top_text_comment:
  "count_top_text True d cs = count_top_text False d (tl (skipComment cs))"
  by (induction cs) simp_all

lemma count_top_text_word:
  "count_top_text False d cs = count_top_text False d (dropWhile wordchar cs)"
  by (induction cs) (simp_all add: wordchar_def)

lemma length_tl_skipComment: "length (tl (skipComment cs)) \<le> length cs"
  using length_skipComment [of cs] by simp

lemma well_formed_text_tokens:
  "well_formed_text False dir d input \<Longrightarrow> wf_tokens dir d (parse input)"
proof (induction "length input" arbitrary: dir d input rule: less_induct)
  case less
  show ?case
  proof (cases input)
    case Nil
    with less.prems show ?thesis by (simp add: parse_Nil)
  next
    case (Cons c cs)
    consider (comment) "c = CHR ''#''"
      | (blank) "c = CHR '' '' \<or> c = CHR 0x09 \<or> c = CHR 0x0A"
      | (semicolon) "c = CHR '';''" | (obrace) "c = CHR ''{''" | (cbrace) "c = CHR ''}''"
      | (word) "wordchar c"
      unfolding wordchar_def by blast
    then show ?thesis
    proof cases
      case comment
      with less.prems Cons have "well_formed_text False dir d (tl (skipComment cs))"
        by (simp add: well_formed_text_comment)
      with less.hyps [of "tl (skipComment cs)" dir d] length_tl_skipComment [of cs] Cons comment
      show ?thesis by (simp add: parse_comment)
    next
      case blank
      with less.prems Cons have "well_formed_text False dir d cs" by auto
      with less.hyps [of cs dir d] Cons blank show ?thesis by (simp add: parse_blank)
    next
      case semicolon
      with less.prems Cons have "dir" "well_formed_text False False d cs" by simp_all
      with less.hyps [of cs False d] Cons semicolon show ?thesis by (simp add: parse_Semicolon)
    next
      case obrace
      with less.prems Cons have "dir" "well_formed_text False False (Suc d) cs" by simp_all
      with less.hyps [of cs False "Suc d"] Cons obrace show ?thesis
        by (simp add: parse_OpeningBrace)
    next
      case cbrace
      with less.prems Cons have "\<not> dir" "0 < d" "well_formed_text False False (d - 1) cs"
        by simp_all
      with less.hyps [of cs False "d - 1"] Cons cbrace show ?thesis
        by (simp add: parse_ClosingBrace)
    next
      case word
      with less.prems Cons have "well_formed_text False True d cs"
        by (simp add: wordchar_def)
      then have "well_formed_text False True d (dropWhile wordchar cs)"
        by (simp add: well_formed_text_word [symmetric])
      moreover have "length (dropWhile wordchar cs) < length input"
        using Cons length_dropWhile_le [of wordchar cs] by simp
      ultimately have "wf_tokens True d (parse (dropWhile wordchar cs))"
        using less.hyps [of "dropWhile wordchar cs" True d] by simp
      with Cons word show ?thesis by (simp add: parse_word)
    qed
  qed
qed

lemma count_top_text_tokens:
  "count_top_text False d input = count_top d (parse input)"
proof (induction "length input" arbitrary: d input rule: less_induct)
  case less
  show ?case
  proof (cases input)
    case Nil
    then show ?thesis by (simp add: parse_Nil)
  next
    case (Cons c cs)
    consider (comment) "c = CHR ''#''"
      | (blank) "c = CHR '' '' \<or> c = CHR 0x09 \<or> c = CHR 0x0A"
      | (semicolon) "c = CHR '';''" | (obrace) "c = CHR ''{''" | (cbrace) "c = CHR ''}''"
      | (word) "wordchar c"
      unfolding wordchar_def by blast
    then show ?thesis
    proof cases
      case comment
      with less.hyps [of "tl (skipComment cs)" d] length_tl_skipComment [of cs] Cons
      show ?thesis by (simp add: parse_comment count_top_text_comment)
    next
      case blank
      with less.hyps [of cs d] Cons show ?thesis by (auto simp: parse_blank)
    next
      case semicolon
      with less.hyps [of cs d] Cons show ?thesis by (simp add: parse_Semicolon)
    next
      case obrace
      with less.hyps [of cs "Suc d"] Cons show ?thesis by (simp add: parse_OpeningBrace)
    next
      case cbrace
      with less.hyps [of cs "d - 1"] Cons show ?thesis by (simp add: parse_ClosingBrace)
    next
      case word
      have "length (dropWhile wordchar cs) < length input"
        using Cons length_dropWhile_le [of wordchar cs] by simp
      from less.hyps [OF this, of d] have
        "count_top_text False d cs = count_top d (parse (dropWhile wordchar cs))"
        by (simp add: count_top_text_word [symmetric])
      with Cons word show ?thesis by (simp add: parse_word wordchar_def)
    qed
  qed
qed

section \<open>The pipeline on a well-formed text\<close>

lemma block_tail_Nil: "block_tail False [] 0"
  by (simp add: block_tail_def)

lemma block_tail_FalseD:
  "block_tail False g k \<Longrightarrow> \<exists>ds. parse_block_loop acc g = Inr (acc @ ds) \<and> length ds = k"
  by (simp add: block_tail_def)

lemma block_tail_String:
  assumes "block_tail True g k"
  shows "block_tail dir (String s # g) k"
proof (cases dir)
  case False
  have "\<exists>ds. parse_block_loop acc (String s # g) = Inr (acc @ ds) \<and> length ds = k" for acc
    using assms [unfolded block_tail_def, simplified, rule_format, of acc s "[]"] by simp
  with False show ?thesis by (simp add: block_tail_def)
next
  case True
  have "\<exists>ds. parse_block_loop acc (String n # map String ar @ String s # g) = Inr (acc @ ds)
      \<and> length ds = k" for acc n ar
    using assms [unfolded block_tail_def, simplified, rule_format, of acc n "ar @ [s]"] by simp
  with True show ?thesis by (simp add: block_tail_def)
qed

lemma block_tail_Semicolon:
  assumes "block_tail False g k"
  shows "block_tail True (Semicolon # g) (Suc k)"
proof -
  have "\<exists>ds. parse_block_loop acc (String n # map String ar @ Semicolon # g) = Inr (acc @ ds)
      \<and> length ds = Suc k" for acc n ar
  proof -
    have "parse_block_args [] (map String ar @ Semicolon # g) = Inr ([] @ ar, Semicolon # g)"
      by (rule parse_block_args_strings) simp
    then have step: "parse_block_loop acc (String n # map String ar @ Semicolon # g)
        = parse_block_loop (acc @ [Directive n ar None]) g"
      by (simp add: parse_block_loop_Semicolon)
    from block_tail_FalseD [OF assms, of "acc @ [Directive n ar None]"] obtain ds where
      "parse_block_loop (acc @ [Directive n ar None]) g = Inr ((acc @ [Directive n ar None]) @ ds)"
      "length ds = k"
      by blast
    with step have "parse_block_loop acc (String n # map String ar @ Semicolon # g)
        = Inr (acc @ (Directive n ar None # ds)) \<and> length (Directive n ar None # ds) = Suc k"
      by simp
    then show ?thesis by blast
  qed
  then show ?thesis by (simp add: block_tail_def)
qed

lemma block_tail_Group:
  assumes "block_tail False g1 k1" and "block_tail False g2 k2"
  shows "block_tail True (Group g1 # g2) (Suc k2)"
proof -
  from block_tail_FalseD [OF assms(1), of "[]"] obtain body where
    body: "parse_block_loop [] g1 = Inr body"
    by auto
  have "\<exists>ds. parse_block_loop acc (String n # map String ar @ Group g1 # g2) = Inr (acc @ ds)
      \<and> length ds = Suc k2" for acc n ar
  proof -
    have "parse_block_args [] (map String ar @ Group g1 # g2) = Inr ([] @ ar, Group g1 # g2)"
      by (rule parse_block_args_strings) simp
    with body have step: "parse_block_loop acc (String n # map String ar @ Group g1 # g2)
        = parse_block_loop (acc @ [Directive n ar (Some body)]) g2"
      by (simp add: parse_block_loop_Group)
    from block_tail_FalseD [OF assms(2), of "acc @ [Directive n ar (Some body)]"] obtain ds where
      "parse_block_loop (acc @ [Directive n ar (Some body)]) g2
         = Inr ((acc @ [Directive n ar (Some body)]) @ ds)"
      "length ds = k2"
      by blast
    with step have "parse_block_loop acc (String n # map String ar @ Group g1 # g2)
        = Inr (acc @ (Directive n ar (Some body) # ds))
        \<and> length (Directive n ar (Some body) # ds) = Suc k2"
      by simp
    then show ?thesis by blast
  qed
  then show ?thesis by (simp add: block_tail_def)
qed

lemma wf_tokens_pipeline:
  "wf_tokens dir d ts \<Longrightarrow>
     \<exists>g r k. parseGroups_loop out ts = Inr (out @ g, r) \<and> block_tail dir g k
       \<and> (d = 0 \<longrightarrow> r = [] \<and> k = count_top 0 ts)
          \<and> (0 < d \<longrightarrow> (\<exists>r'. r = ClosingBrace # r' \<and> wf_tokens False (d - 1) r'
                 \<and> count_top d ts = count_top (d - 1) r'))"
proof (induction out ts arbitrary: dir d rule: parseGroups_loop.induct)
  case (1 out)
  then have "\<not> dir" "d = 0" by simp_all
  then show ?case using block_tail_Nil by auto
next
  case (2 out t ts)
  show ?case
  proof (cases t)
    case Semicolon
    with 2(4) have wf: "dir" "wf_tokens False d ts" by simp_all
    from 2(3) [OF _ _ wf(2)] Semicolon obtain g r k where
      g: "parseGroups_loop (out @ [t]) ts = Inr ((out @ [t]) @ g, r)" "block_tail False g k"
      and r: "(d = 0 \<longrightarrow> r = [] \<and> k = count_top 0 ts)
          \<and> (0 < d \<longrightarrow> (\<exists>r'. r = ClosingBrace # r' \<and> wf_tokens False (d - 1) r'
                 \<and> count_top d ts = count_top (d - 1) r'))"
      by auto
    have "parseGroups_loop out (t # ts) = Inr (out @ (Semicolon # g), r)"
      using g(1) Semicolon by simp
    moreover have "block_tail dir (Semicolon # g) (Suc k)"
      using block_tail_Semicolon [OF g(2)] wf(1) by simp
    moreover have "(d = 0 \<longrightarrow> r = [] \<and> Suc k = count_top 0 (t # ts))
          \<and> (0 < d \<longrightarrow> (\<exists>r'. r = ClosingBrace # r' \<and> wf_tokens False (d - 1) r'
                 \<and> count_top d (t # ts) = count_top (d - 1) r'))"
      using r Semicolon by auto
    ultimately show ?thesis by blast
  next
    case OpeningBrace
    with 2(4) have wf: "dir" "wf_tokens False (Suc d) ts" by simp_all
    from 2(1) [OF _ OpeningBrace wf(2)] OpeningBrace obtain g1 r1 k1 where
      g1: "parseGroups_loop [] ts = Inr (g1, ClosingBrace # r1)" "block_tail False g1 k1"
      and r1: "wf_tokens False d r1" "count_top (Suc d) ts = count_top d r1"
      by auto
    have "\<exists>g r k. parseGroups_loop (out @ [Group g1]) r1 = Inr ((out @ [Group g1]) @ g, r)
        \<and> block_tail False g k
        \<and> (d = 0 \<longrightarrow> r = [] \<and> k = count_top 0 r1)
           \<and> (0 < d \<longrightarrow> (\<exists>r'. r = ClosingBrace # r' \<and> wf_tokens False (d - 1) r'
                  \<and> count_top d r1 = count_top (d - 1) r'))"
      using 2(2) [of "(g1, ClosingBrace # r1)" g1 "ClosingBrace # r1" False d] g1(1) r1(1)
        OpeningBrace by simp
    then obtain g2 r k where
      g2: "parseGroups_loop (out @ [Group g1]) r1 = Inr ((out @ [Group g1]) @ g2, r)"
        "block_tail False g2 k"
      and r: "(d = 0 \<longrightarrow> r = [] \<and> k = count_top 0 r1)
          \<and> (0 < d \<longrightarrow> (\<exists>r'. r = ClosingBrace # r' \<and> wf_tokens False (d - 1) r'
                 \<and> count_top d r1 = count_top (d - 1) r'))"
      by blast
    have "parseGroups_loop out (t # ts) = Inr (out @ (Group g1 # g2), r)"
      using g1(1) g2(1) OpeningBrace by simp
    moreover have "block_tail dir (Group g1 # g2) (Suc k)"
      using block_tail_Group [OF g1(2) g2(2)] wf(1) by simp
    moreover have "(d = 0 \<longrightarrow> r = [] \<and> Suc k = count_top 0 (t # ts))
          \<and> (0 < d \<longrightarrow> (\<exists>r'. r = ClosingBrace # r' \<and> wf_tokens False (d - 1) r'
                 \<and> count_top d (t # ts) = count_top (d - 1) r'))"
      using r r1(2) OpeningBrace by auto
    ultimately show ?thesis by blast
  next
    case ClosingBrace
    with 2(4) have wf: "\<not> dir" "0 < d" "wf_tokens False (d - 1) ts" by simp_all
    have "parseGroups_loop out (t # ts) = Inr (out @ [], ClosingBrace # ts)"
      using ClosingBrace by simp
    moreover have "block_tail dir [] 0"
      using block_tail_Nil wf(1) by simp
    moreover have "(d = 0 \<longrightarrow> ClosingBrace # ts = [] \<and> 0 = count_top 0 (t # ts))
          \<and> (0 < d \<longrightarrow> (\<exists>r'. ClosingBrace # ts = ClosingBrace # r' \<and> wf_tokens False (d - 1) r'
                 \<and> count_top d (t # ts) = count_top (d - 1) r'))"
      using wf ClosingBrace by simp
    ultimately show ?thesis by blast
  next
    case (String s)
    with 2(4) have wf: "wf_tokens True d ts" by simp
    from 2(3) [OF _ _ wf] String obtain g r k where
      g: "parseGroups_loop (out @ [t]) ts = Inr ((out @ [t]) @ g, r)" "block_tail True g k"
      and r: "(d = 0 \<longrightarrow> r = [] \<and> k = count_top 0 ts)
          \<and> (0 < d \<longrightarrow> (\<exists>r'. r = ClosingBrace # r' \<and> wf_tokens False (d - 1) r'
                 \<and> count_top d ts = count_top (d - 1) r'))"
      by auto
    have "parseGroups_loop out (t # ts) = Inr (out @ (String s # g), r)"
      using g(1) String by simp
    moreover have "block_tail dir (String s # g) k"
      by (rule block_tail_String [OF g(2)])
    moreover have "(d = 0 \<longrightarrow> r = [] \<and> k = count_top 0 (t # ts))
          \<and> (0 < d \<longrightarrow> (\<exists>r'. r = ClosingBrace # r' \<and> wf_tokens False (d - 1) r'
                 \<and> count_top d (t # ts) = count_top (d - 1) r'))"
      using r String by auto
    ultimately show ?thesis by blast
  next
    case (Group x)
    with 2(4) show ?thesis by simp
  qed
qed

section \<open>Properties\<close>

subsection \<open>Grouper\<close>




text \<open>
  C3. The loop of an invocation reaches an opening brace when the tokens \<open>pre\<close> before it
  are grouped up to their end. If the recursive invocation on the tokens \<open>ts\<close> after the
  brace does not return at a closing brace (it returns at the end of the sequence, or an
  opening brace inside \<open>ts\<close> has failed the same way), the invocation fails with
  \<open>UnmatchedOpeningBrace\<close>, the \<^verbatim>\<open>ParsingError\<close> "No matching closing curly brace". This
  holds for every local \<^verbatim>\<open>output\<close>, so for the top-level and for every recursive
  invocation.
\<close>

theorem parseGroups_UnmatchedOpeningBrace:
  assumes "parseGroups_loop out pre = Inr (out', [])"
    and "\<forall>c r. parseGroups ts \<noteq> Inr (c, ClosingBrace # r)"
  shows "parseGroups_loop out (pre @ OpeningBrace # ts) = Inl UnmatchedOpeningBrace"
proof -
  have "parseGroups_loop out' (OpeningBrace # ts) = Inl UnmatchedOpeningBrace"
  proof (cases "parseGroups_loop [] ts")
    case (Inl e)
    with parseGroups_loop_error [OF Inl] show ?thesis
      by (simp add: parseGroups_loop_OpeningBrace)
  next
    case (Inr p)
    obtain c r where p: "p = (c, r)" by (cases p)
    with Inr assms(2) parseGroups_loop_stops [of "[]" ts c r] have "r = []"
      by (auto simp: parseGroups_def)
    with Inr p show ?thesis
      by (simp add: UnmatchedOpeningBrace_def)
  qed
  with parseGroups_loop_append_end [OF assms(1)] show ?thesis by simp
qed

theorem parseGroups_UnmatchedOpeningBrace_witness:
  "parseGroups_loop [] [String ''a'', Semicolon] = Inr ([String ''a'', Semicolon], [])
   \<and> (\<forall>c r. parseGroups [String ''b''] \<noteq> Inr (c, ClosingBrace # r))
   \<and> parseGroups_loop [] ([String ''a'', Semicolon] @ OpeningBrace # [String ''b''])
        = Inl UnmatchedOpeningBrace"
proof -
  have h1: "parseGroups_loop [] [String ''a'', Semicolon] = Inr ([String ''a'', Semicolon], [])"
    by simp
  have h2: "\<forall>c r. parseGroups [String ''b''] \<noteq> Inr (c, ClosingBrace # r)"
    by (simp add: parseGroups_def)
  from h1 h2 parseGroups_UnmatchedOpeningBrace [OF h1 h2] show ?thesis by blast
qed

text \<open>
  C5. On a token sequence of the tokenizer's kinds (no \<^verbatim>\<open>Group\<close> in the input), when
  \<^verbatim>\<open>parseGroups\<close> returns, no opening and no closing brace is left in its content at any
  depth, and putting one pair of braces back around the content of every \<^verbatim>\<open>Group\<close>
  gives exactly the tokens of the input before \<^verbatim>\<open>rest\<close>: every \<^verbatim>\<open>Group\<close> stands for one
  matched pair of braces of the input, and the braces are dropped.
\<close>

theorem parseGroups_no_brace_leaf:
  "flat input \<Longrightarrow> parseGroups input = Inr (c, rest) \<Longrightarrow>
     list_all brace_free c \<and> concat (map ungroup c) @ rest = input"
  using parseGroups_loop_tree [of "[]" input c rest] by (auto simp: parseGroups_def)

theorem parseGroups_no_brace_leaf_witness:
  "flat [String ''a'', OpeningBrace, OpeningBrace, String ''b'', Semicolon, ClosingBrace,
         ClosingBrace, ClosingBrace]
   \<and> parseGroups [String ''a'', OpeningBrace, OpeningBrace, String ''b'', Semicolon,
         ClosingBrace, ClosingBrace, ClosingBrace]
       = Inr ([String ''a'', Group [Group [String ''b'', Semicolon]]], [ClosingBrace])
   \<and> list_all brace_free [String ''a'', Group [Group [String ''b'', Semicolon]]]
   \<and> concat (map ungroup [String ''a'', Group [Group [String ''b'', Semicolon]]])
         @ [ClosingBrace]
       = [String ''a'', OpeningBrace, OpeningBrace, String ''b'', Semicolon, ClosingBrace,
          ClosingBrace, ClosingBrace]"
proof -
  have h1: "flat [String ''a'', OpeningBrace, OpeningBrace, String ''b'', Semicolon,
      ClosingBrace, ClosingBrace, ClosingBrace]"
    by (simp add: flat_def)
  have h2: "parseGroups [String ''a'', OpeningBrace, OpeningBrace, String ''b'', Semicolon,
        ClosingBrace, ClosingBrace, ClosingBrace]
      = Inr ([String ''a'', Group [Group [String ''b'', Semicolon]]], [ClosingBrace])"
    by (simp add: parseGroups_def)
  from h1 h2 parseGroups_no_brace_leaf [OF h1 h2] show ?thesis by blast
qed

text \<open>
  C10. When \<^verbatim>\<open>parseGroups\<close> returns without error, \<^verbatim>\<open>rest\<close> is the end of the sequence or
  points at a closing brace. The recursive invocations of the source are invocations of
  \<^verbatim>\<open>parseGroups\<close> on the tokens after an opening brace, so the statement, which holds for
  every input, covers them as well as the top-level one.
\<close>

theorem parseGroups_rest_end_or_ClosingBrace:
  "parseGroups input = Inr (c, rest) \<Longrightarrow> rest = [] \<or> (\<exists>r. rest = ClosingBrace # r)"
  unfolding parseGroups_def by (rule parseGroups_loop_stops)

theorem parseGroups_rest_end_or_ClosingBrace_witness:
  "parseGroups [OpeningBrace, String ''a'', ClosingBrace, ClosingBrace, Semicolon]
     = Inr ([Group [String ''a'']], [ClosingBrace, Semicolon])
   \<and> ([ClosingBrace, Semicolon] = [] \<or> (\<exists>r. [ClosingBrace, Semicolon] = ClosingBrace # r))"
proof -
  have h: "parseGroups [OpeningBrace, String ''a'', ClosingBrace, ClosingBrace, Semicolon]
     = Inr ([Group [String ''a'']], [ClosingBrace, Semicolon])"
    by (simp add: parseGroups_def)
  from h parseGroups_rest_end_or_ClosingBrace [OF h] show ?thesis by (rule conjI)
qed

subsection \<open>Block builder\<close>

text \<open>
  C2. The block builder expects the name of a directive at the head of its outer loop: at
  the start of a block, and after every directive, that is after the nodes \<open>pre\<close> when the
  loop on \<open>pre\<close> alone returns. If the node found there is not a \<^verbatim>\<open>String\<close> (a
  semicolon, a brace or a group), the builder fails with \<open>ExpectedDirectiveName\<close>, the
  \<^verbatim>\<open>std::bad_cast\<close> of the reference cast; a semicolon with no name before it is not
  skipped.
\<close>

theorem parse_block_ExpectedDirectiveName:
  assumes "parse_block_loop out pre = Inr out'" and "\<not> is_String t"
  shows "parse_block_loop out (pre @ t # ts) = Inl ExpectedDirectiveName"
proof -
  have "parse_block_loop out (pre @ t # ts) = parse_block_loop out' (t # ts)"
    by (rule parse_block_loop_append [OF assms(1)])
  also have "\<dots> = Inl bad_cast"
    by (rule parse_block_loop_not_String [OF assms(2)])
  finally show ?thesis
    by (simp only: ExpectedDirectiveName_def)
qed

theorem parse_block_ExpectedDirectiveName_witness:
  "parse_block_loop [] [String ''a'', Semicolon] = Inr [Directive ''a'' [] None]
   \<and> \<not> is_String Semicolon
   \<and> parse_block_loop [] ([String ''a'', Semicolon] @ Semicolon # [String ''b'', Semicolon])
       = Inl ExpectedDirectiveName"
proof -
  have h1: "parse_block_loop [] [String ''a'', Semicolon] = Inr [Directive ''a'' [] None]"
    by simp
  have h2: "\<not> is_String Semicolon" by simp
  from h1 h2 parse_block_ExpectedDirectiveName [OF h1 h2] show ?thesis by blast
qed

text \<open>
  C7. When \<^verbatim>\<open>parse_block\<close> returns a block, its directives are, in order, ended by the
  nodes of the input that are not a \<^verbatim>\<open>String\<close>. For every directive and the node that
  ends it, exactly one of the two holds: the directive has a body and the node is a group
  (whose block is that body), or the directive has no body and the node is a semicolon.
  The body of a directive is itself a block returned by \<^verbatim>\<open>parse_block\<close>, so the same
  holds in every nested block.
\<close>

theorem parse_block_body_xor_semicolon:
  assumes "parse_block input = Inr b"
  shows "list_all2
     (\<lambda>d t. ended_by d t
        \<and> ((config d \<noteq> None \<and> is_Group t) \<noteq> (config d = None \<and> t = Semicolon)))
     b (filter (\<lambda>t. \<not> is_String t) input)"
proof -
  have ended: "list_all2 ended_by b (filter (\<lambda>t. \<not> is_String t) input)"
    using parse_block_loop_ended_by [of "[]" input b] assms by (auto simp: parse_block_def)
  have one: "(config d \<noteq> None \<and> is_Group t) \<noteq> (config d = None \<and> t = Semicolon)"
    if "ended_by d t" for d t
    using that by (cases t) (auto split: option.splits)
  show ?thesis
  proof (rule list_all2_mono [OF ended])
    fix d t
    assume e: "ended_by d t"
    from e one [OF e]
    show "ended_by d t
        \<and> ((config d \<noteq> None \<and> is_Group t) \<noteq> (config d = None \<and> t = Semicolon))"
      by (rule conjI)
  qed
qed

theorem parse_block_body_xor_semicolon_witness:
  "parse_block [String ''a'', String ''x'', Semicolon, String ''b'', Group [String ''c'', Semicolon]]
     = Inr [Directive ''a'' [''x''] None, Directive ''b'' [] (Some [Directive ''c'' [] None])]
   \<and> list_all2
       (\<lambda>d t. ended_by d t
          \<and> ((config d \<noteq> None \<and> is_Group t) \<noteq> (config d = None \<and> t = Semicolon)))
       [Directive ''a'' [''x''] None, Directive ''b'' [] (Some [Directive ''c'' [] None])]
       (filter (\<lambda>t. \<not> is_String t)
          [String ''a'', String ''x'', Semicolon, String ''b'', Group [String ''c'', Semicolon]])"
proof -
  have h: "parse_block
        [String ''a'', String ''x'', Semicolon, String ''b'', Group [String ''c'', Semicolon]]
      = Inr [Directive ''a'' [''x''] None, Directive ''b'' [] (Some [Directive ''c'' [] None])]"
    by (simp add: parse_block_def)
  from h parse_block_body_xor_semicolon [OF h] show ?thesis by (rule conjI)
qed

subsection \<open>Tokenizer\<close>

text \<open>
  C6. For every input text, no token of \<^verbatim>\<open>parse\<close> is a \<^verbatim>\<open>String\<close> with an empty
  content: after \<^verbatim>\<open>skipWhitespace\<close> the input is at its end or at a character that is
  neither a blank nor \<^verbatim>\<open>#\<close>, where \<^verbatim>\<open>parseWord\<close> returns a one-character token or a
  \<^verbatim>\<open>String\<close> of at least that character.
\<close>

theorem parse_no_empty_String: "String '''' \<notin> set (parse input)"
  unfolding parse_def by (rule parse_loop_no_empty_String) simp

text \<open>
  C9. Called at a space, a tab, a newline or \<^verbatim>\<open>#\<close>, without \<^verbatim>\<open>skipWhitespace\<close> before
  it, \<^verbatim>\<open>parseWord\<close> returns a \<^verbatim>\<open>String\<close> with an empty content and leaves \<^verbatim>\<open>input\<close>
  where it is.
\<close>

theorem parseWord_at_skipped_character:
  "c = CHR '' '' \<or> c = CHR 0x09 \<or> c = CHR 0x0A \<or> c = CHR ''#'' \<Longrightarrow>
     parseWord (c # cs) = (Some (String ''''), c # cs)"
  by auto

text \<open>The call of \<^verbatim>\<open>main\<close>: \<^verbatim>\<open>parseWord\<close> on the string of one space.\<close>

theorem parseWord_at_skipped_character_witness:
  "(CHR '' '' = CHR '' '' \<or> CHR '' '' = CHR 0x09 \<or> CHR '' '' = CHR 0x0A
      \<or> CHR '' '' = CHR ''#'')
   \<and> parseWord (CHR '' '' # []) = (Some (String ''''), CHR '' '' # [])"
proof -
  have h: "CHR '' '' = CHR '' '' \<or> CHR '' '' = CHR 0x09 \<or> CHR '' '' = CHR 0x0A
      \<or> CHR '' '' = CHR ''#''"
    by simp
  from h parseWord_at_skipped_character [OF h] show ?thesis by (rule conjI)
qed

subsection \<open>Pipeline\<close>

text \<open>
  C4. For every input text with balanced braces and well-formed directives, the pipeline
  returns a block without error, and the number of its directives is the number of the
  top-level semicolons and of the top-level groups of the text. Both the hypothesis and
  the count are read off the characters of the text.
\<close>

theorem parse_config_well_formed_text:
  assumes "well_formed_text False False 0 input"
  shows "\<exists>b. parse_config input = Inr b \<and> length b = count_top_text False 0 input"
proof -
  from well_formed_text_tokens [OF assms]
  have "wf_tokens False 0 (parse input)" .
  from wf_tokens_pipeline [OF this, of "[]"] obtain g k where
    g: "parseGroups_loop [] (parse input) = Inr (g, [])" and "block_tail False g k"
    and k: "k = count_top 0 (parse input)"
    by auto
  from block_tail_FalseD [OF this(2), of "[]"] obtain ds where
    ds: "parse_block_loop [] g = Inr ds" "length ds = k"
    by auto
  from g ds(1) have "parse_config input = Inr ds"
    by (simp add: parse_config_def parseGroups_def parse_block_def)
  moreover have "length ds = count_top_text False 0 input"
    using ds(2) k by (simp add: count_top_text_tokens)
  ultimately show ?thesis by blast
qed

text \<open>
  A text of two lines, with a comment that holds a brace and a semicolon: two directives.
\<close>

theorem parse_config_well_formed_text_witness:
  "well_formed_text False False 0 (''a; # x { ;'' @ [CHR 0x0A] @ ''b { c d; } # end'')
   \<and> (\<exists>b. parse_config (''a; # x { ;'' @ [CHR 0x0A] @ ''b { c d; } # end'') = Inr b
         \<and> length b = count_top_text False 0 (''a; # x { ;'' @ [CHR 0x0A] @ ''b { c d; } # end''))"
proof -
  have h: "well_formed_text False False 0 (''a; # x { ;'' @ [CHR 0x0A] @ ''b { c d; } # end'')"
    by simp
  from h parse_config_well_formed_text [OF h] show ?thesis by (rule conjI)
qed

text \<open>
  C8. On the text \<^verbatim>\<open>server { listen 80; }\<close> the pipeline returns a block of one
  directive, of name \<^verbatim>\<open>server\<close>, with no argument and with a body of one directive, of
  name \<^verbatim>\<open>listen\<close>, with the argument \<^verbatim>\<open>80\<close> and no body.
\<close>

theorem parse_config_server_listen:
  "parse_config ''server { listen 80; }''
     = Inr [Directive ''server'' [] (Some [Directive ''listen'' [''80''] None])]"
  by (simp add: parse_config_def parse_def parse_loop.simps parseGroups_def parse_block_def)

end
